theory Spec2Isabelle
  imports Main
begin

section \<open>The deduplication store of \<^verbatim>\<open>src/dedup_store.py\<close>\<close>

text \<open>
  \<^verbatim>\<open>DeduplicationStore\<close> keeps the keys \<open>(topic, event_id)\<close> of processed events in two
  tiers: the Python set \<^verbatim>\<open>_processed_cache\<close> and the SQLite table
  \<^verbatim>\<open>processed_events\<close>. The methods are embedded as functions on an explicit store
  state. The SQLite engine is not part of the repository; the three statements the
  class sends to it are given their SQL meaning below, and what the engine does with
  one statement (execute it, or raise) is an argument of every method that sends one.
\<close>

subsection \<open>Data\<close>

text \<open>The key \<^verbatim>\<open>(topic, event_id)\<close>: a pair of Python strings.\<close>

type_synonym key = "string \<times> string"

text \<open>
  A row of \<^verbatim>\<open>processed_events\<close>: the key and \<^verbatim>\<open>processed_at\<close>. The column defaults to
  \<^verbatim>\<open>CURRENT_TIMESTAMP\<close>, which SQLite renders as the text \<^verbatim>\<open>YYYY-MM-DD HH:MM:SS\<close>, with a
  resolution of one second; it is modelled as the number of seconds the engine's
  clock shows when the row is written. The engine compares the texts, which are
  ordered as the seconds are for every clock before the year 10000; the model is of
  such clocks.
\<close>

type_synonym row = "key \<times> nat"

text \<open>\<^verbatim>\<open>CACHE_SIZE = 100000\<close>\<close>

definition CACHE_SIZE :: nat where
  "CACHE_SIZE = 100000"

text \<open>
  The exceptions of the \<^verbatim>\<open>sqlite3\<close> module that the methods can meet:
  \<^verbatim>\<open>ProgrammingError\<close> for a statement on a closed connection, \<^verbatim>\<open>OperationalError\<close>
  for a statement the engine cannot carry out (locked or unreadable file, full disk).
\<close>

datatype db_error = ProgrammingError | OperationalError

text \<open>What the engine does with one statement sent on an open connection.\<close>

datatype engine = Runs | Raises

text \<open>
  The instance. \<open>cache\<close> is \<^verbatim>\<open>self._processed_cache\<close>; \<open>conn_open\<close> says whether
  \<^verbatim>\<open>self.conn\<close> is still open; \<open>table\<close> is the content of \<^verbatim>\<open>processed_events\<close> as the
  connection of this instance sees it, in rowid order (the order of insertion);
  \<open>durable\<close> is the committed content of the database file, which is what a later
  instance opened on the same path finds.
\<close>

record store =
  cache :: "key set"
  conn_open :: bool
  table :: "row list"
  durable :: "row list"

subsection \<open>The SQL statements\<close>

text \<open>
  The outcome of sending a statement: an exception, or none. A closed connection
  raises before the engine is asked.
\<close>

definition attempt :: "store \<Rightarrow> engine \<Rightarrow> db_error option" where
  "attempt s io =
     (if \<not> conn_open s then Some ProgrammingError
      else if io = Raises then Some OperationalError
      else None)"

text \<open>
  \<^verbatim>\<open>SELECT 1 FROM processed_events WHERE topic = ? AND event_id = ?\<close> followed by
  \<^verbatim>\<open>fetchone()\<close>: the result is not \<^verbatim>\<open>None\<close> exactly when a row has the key.
\<close>

definition select_one :: "row list \<Rightarrow> key \<Rightarrow> bool" where
  "select_one rows k = (k \<in> set (map fst rows))"

text \<open>
  \<^verbatim>\<open>INSERT OR IGNORE INTO processed_events (topic, event_id) VALUES (?, ?)\<close>: the
  primary key \<^verbatim>\<open>(topic, event_id)\<close> makes the statement skip a key that has a row;
  otherwise a row is appended whose \<^verbatim>\<open>processed_at\<close> is the current time \<open>now\<close>.
\<close>

definition insert_or_ignore :: "nat \<Rightarrow> key \<Rightarrow> row list \<Rightarrow> row list" where
  "insert_or_ignore now k rows =
     (if k \<in> set (map fst rows) then rows else rows @ [(k, now)])"

text \<open>
  \<^verbatim>\<open>ORDER BY processed_at DESC\<close>. SQL leaves the order of rows with equal
  \<^verbatim>\<open>processed_at\<close> to the engine; SQLite scans the table in rowid order and its sorter
  keeps rows with equal sort keys in scan order, which is what \<open>place_desc\<close> does: a
  row goes in front of the first row that is not later than it.
\<close>

fun place_desc :: "row \<Rightarrow> row list \<Rightarrow> row list" where
  "place_desc r [] = [r]"
| "place_desc r (x # xs) =
     (if snd x \<le> snd r then r # x # xs else x # place_desc r xs)"

fun order_by_processed_at_desc :: "row list \<Rightarrow> row list" where
  "order_by_processed_at_desc [] = []"
| "order_by_processed_at_desc (r # rs) = place_desc r (order_by_processed_at_desc rs)"

text \<open>
  \<^verbatim>\<open>SELECT topic, event_id FROM processed_events ORDER BY processed_at DESC LIMIT n\<close>
  followed by \<^verbatim>\<open>fetchall()\<close>.
\<close>

definition select_recent :: "nat \<Rightarrow> row list \<Rightarrow> key list" where
  "select_recent n rows = map fst (take n (order_by_processed_at_desc rows))"

subsection \<open>The methods\<close>

text \<open>
  \<^verbatim>\<open>_load_cache\<close>: the query and \<^verbatim>\<open>fetchall\<close> sit in a \<^verbatim>\<open>try\<close>; when either raises, the
  handler prints and the cache keeps what it had.
\<close>

definition load_cache :: "engine \<Rightarrow> store \<Rightarrow> store" where
  "load_cache io s =
     (case attempt s io of
        Some e \<Rightarrow> s
      | None \<Rightarrow> s\<lparr>cache := set (select_recent CACHE_SIZE (table s))\<rparr>)"

text \<open>
  \<^verbatim>\<open>__init__\<close> with \<^verbatim>\<open>_initialize_db\<close>: the cache starts as the empty set; then
  \<^verbatim>\<open>sqlite3.connect\<close>, \<^verbatim>\<open>CREATE TABLE IF NOT EXISTS\<close> and \<^verbatim>\<open>commit\<close> run outside any
  \<^verbatim>\<open>try\<close>, so an exception of one of them leaves the constructor; last comes
  \<^verbatim>\<open>_load_cache\<close>. \<open>file\<close> is the committed content of the database at \<^verbatim>\<open>db_path\<close>
  (no rows when the file or the table is new); \<open>opened file\<close> is the instance when
  \<^verbatim>\<open>_load_cache\<close> is called.
\<close>

definition opened :: "row list \<Rightarrow> store" where
  "opened file = \<lparr>cache = {}, conn_open = True, table = file, durable = file\<rparr>"

definition DeduplicationStore ::
  "engine \<Rightarrow> engine \<Rightarrow> engine \<Rightarrow> engine \<Rightarrow> row list \<Rightarrow> db_error + store" where
  "DeduplicationStore io_connect io_create io_commit io_load file =
     (if io_connect = Raises then Inl OperationalError
      else if io_create = Raises then Inl OperationalError
      else if io_commit = Raises then Inl OperationalError
      else Inr (load_cache io_load (opened file)))"

text \<open>
  \<^verbatim>\<open>is_processed\<close>: the cache first, then the table. The query is outside any \<^verbatim>\<open>try\<close>:
  an exception reaches the caller, and the instance is as it was.
\<close>

definition is_processed :: "engine \<Rightarrow> key \<Rightarrow> store \<Rightarrow> (db_error + bool) \<times> store" where
  "is_processed io k s =
     (if k \<in> cache s then (Inr True, s)
      else (case attempt s io of
              Some e \<Rightarrow> (Inl e, s)
            | None \<Rightarrow>
                if select_one (table s) k
                then (Inr True, s\<lparr>cache := insert k (cache s)\<rparr>)
                else (Inr False, s)))"

text \<open>
  \<^verbatim>\<open>mark_processed\<close>: the key is added to the cache, then the insert and the commit
  run in one \<^verbatim>\<open>try\<close> whose handler prints. The method returns \<^verbatim>\<open>None\<close> on every path,
  so the result is the instance alone. An insert that ran and whose commit raised is
  seen by this connection and is not in the file.
\<close>

definition mark_processed :: "engine \<Rightarrow> engine \<Rightarrow> nat \<Rightarrow> key \<Rightarrow> store \<Rightarrow> store" where
  "mark_processed io_insert io_commit now k s =
     (let s1 = s\<lparr>cache := insert k (cache s)\<rparr> in
      case attempt s1 io_insert of
        Some e \<Rightarrow> s1
      | None \<Rightarrow>
          (let s2 = s1\<lparr>table := insert_or_ignore now k (table s1)\<rparr> in
           case attempt s2 io_commit of
             Some e \<Rightarrow> s2
           | None \<Rightarrow> s2\<lparr>durable := table s2\<rparr>))"

text \<open>
  \<^verbatim>\<open>close\<close>: closes the connection; SQLite rolls back what was not committed.
\<close>

definition close :: "store \<Rightarrow> store" where
  "close s = s\<lparr>conn_open := False, table := durable s\<rparr>"

subsection \<open>Sequences of calls\<close>

text \<open>A call of a public method, with what the engine does during it.\<close>

datatype call =
    Is_processed engine key
  | Mark_processed engine engine nat key
  | Close

fun step :: "call \<Rightarrow> store \<Rightarrow> store" where
  "step (Is_processed io k) s = snd (is_processed io k s)"
| "step (Mark_processed io_insert io_commit now k) s = mark_processed io_insert io_commit now k s"
| "step Close s = close s"

fun run :: "call list \<Rightarrow> store \<Rightarrow> store" where
  "run [] s = s"
| "run (c # cs) s = run cs (step c s)"

text \<open>The keys a sequence of calls marks.\<close>

fun marked :: "call \<Rightarrow> key set" where
  "marked (Mark_processed io_insert io_commit now k) = {k}"
| "marked c = {}"

text \<open>
  Marking a list of keys in sequence, each call running and committing; the second
  component is the second the engine's clock shows at the call.
\<close>

fun mark_all :: "row list \<Rightarrow> call list" where
  "mark_all [] = []"
| "mark_all ((k, now) # kts) = Mark_processed Runs Runs now k # mark_all kts"

text \<open>
  A history of \<open>n\<close> distinct keys \<^verbatim>\<open>("orders", "e")\<close>, \<^verbatim>\<open>("orders", "ee")\<close>, ..., marked
  in this order within one second of the clock (second 0).
\<close>

definition event_key :: "nat \<Rightarrow> key" where
  "event_key i = (''orders'', replicate (Suc i) (CHR ''e''))"

definition same_second :: "nat \<Rightarrow> row list" where
  "same_second n = map (\<lambda>i. (event_key i, 0)) [0..<n]"

section \<open>Properties\<close>

subsection \<open>Auxiliary facts\<close>

lemma attempt_cache_upd [simp]: "attempt (s\<lparr>cache := c\<rparr>) io = attempt s io"
  by (simp add: attempt_def)

lemma attempt_table_upd [simp]: "attempt (s\<lparr>table := t\<rparr>) io = attempt s io"
  by (simp add: attempt_def)

lemma cache_step: "cache s \<subseteq> cache (step c s)"
  by (cases c)
    (auto simp: is_processed_def mark_processed_def close_def Let_def split: option.splits)

lemma cache_run: "cache s \<subseteq> cache (run cs s)"
proof (induction cs arbitrary: s)
  case Nil
  show ?case by simp
next
  case (Cons c cs)
  have "cache s \<subseteq> cache (step c s)" by (rule cache_step)
  also have "\<dots> \<subseteq> cache (run cs (step c s))" by (rule Cons.IH)
  finally show ?case by simp
qed

lemma is_processed_cached: "k \<in> cache s \<Longrightarrow> is_processed io k s = (Inr True, s)"
  by (simp add: is_processed_def)

lemma is_processed_cached_run:
  "k \<in> cache s \<Longrightarrow> is_processed io k (run cs s) = (Inr True, run cs s)"
  using cache_run [of s cs] by (auto intro: is_processed_cached)


lemma cache_mark_processed: "k \<in> cache (mark_processed io_insert io_commit now k s)"
  by (simp add: mark_processed_def Let_def split: option.splits)

text \<open>
  C2. \<^verbatim>\<open>mark_processed\<close> returns on every path, and once it has returned, every
  \<^verbatim>\<open>is_processed\<close> call for the same key answers true and leaves the instance as it
  is: the call that follows at once, and every call made after any further calls on
  the instance (\<^verbatim>\<open>is_processed\<close> or \<^verbatim>\<open>mark_processed\<close> for any keys, \<^verbatim>\<open>close\<close>),
  whatever the engine would do and whether or not the connection is open.
\<close>

theorem mark_then_is_processed:
  "is_processed io k (mark_processed io_insert io_commit now k s) =
     (Inr True, mark_processed io_insert io_commit now k s)
   \<and> is_processed io k (run cs (mark_processed io_insert io_commit now k s)) =
     (Inr True, run cs (mark_processed io_insert io_commit now k s))"
proof
  show "is_processed io k (mark_processed io_insert io_commit now k s) =
     (Inr True, mark_processed io_insert io_commit now k s)"
    using cache_mark_processed by (rule is_processed_cached)
  show "is_processed io k (run cs (mark_processed io_insert io_commit now k s)) =
     (Inr True, run cs (mark_processed io_insert io_commit now k s))"
    using cache_mark_processed by (rule is_processed_cached_run)
qed

theorem mark_then_is_processed_witness:
  "is_processed Raises (''orders'', ''e1'')
     (mark_processed Raises Raises 7 (''orders'', ''e1'')
        \<lparr>cache = {}, conn_open = True, table = [], durable = []\<rparr>) =
   (Inr True, \<lparr>cache = {(''orders'', ''e1'')}, conn_open = True, table = [], durable = []\<rparr>)
   \<and> is_processed Raises (''orders'', ''e1'')
     (run [Mark_processed Runs Runs 8 (''orders'', ''e2''), Is_processed Runs (''orders'', ''e3''),
           Close]
        (mark_processed Raises Raises 7 (''orders'', ''e1'')
           \<lparr>cache = {}, conn_open = True, table = [], durable = []\<rparr>)) =
   (Inr True, \<lparr>cache = {(''orders'', ''e2''), (''orders'', ''e1'')}, conn_open = False,
      table = [((''orders'', ''e2''), 8)], durable = [((''orders'', ''e2''), 8)]\<rparr>)"
  using mark_then_is_processed [of Raises "(''orders'', ''e1'')" Raises Raises 7
      "\<lparr>cache = {}, conn_open = True, table = [], durable = []\<rparr>"
      "[Mark_processed Runs Runs 8 (''orders'', ''e2''), Is_processed Runs (''orders'', ''e3''),
        Close]"]
  by (simp add: mark_processed_def attempt_def insert_or_ignore_def is_processed_def
      select_one_def close_def)

text \<open>
  C1. The two tiers of \<^verbatim>\<open>is_processed\<close>. A key in the cache is answered true with the
  instance unchanged, whatever the engine would do and even on a closed connection:
  the table is not consulted. A key that is not in the cache is looked up in the
  table; when the lookup runs and finds a row, the key is added to the cache, the
  answer is true, and after any further calls every \<^verbatim>\<open>is_processed\<close> for the key is
  answered true with the instance unchanged, again whatever the engine would do.
  When the lookup runs and finds no row the answer is false.
\<close>

theorem is_processed_two_tier:
  "(k \<in> cache s \<longrightarrow> is_processed io k s = (Inr True, s)) \<and>
   (k \<notin> cache s \<and> conn_open s \<and> select_one (table s) k \<longrightarrow>
      is_processed Runs k s = (Inr True, s\<lparr>cache := insert k (cache s)\<rparr>) \<and>
      is_processed io' k (run cs (snd (is_processed Runs k s))) =
        (Inr True, run cs (snd (is_processed Runs k s)))) \<and>
   (k \<notin> cache s \<and> conn_open s \<and> \<not> select_one (table s) k \<longrightarrow>
      is_processed Runs k s = (Inr False, s))"
proof (intro conjI impI)
  assume "k \<in> cache s"
  then show "is_processed io k s = (Inr True, s)" by (rule is_processed_cached)
next
  assume h: "k \<notin> cache s \<and> conn_open s \<and> select_one (table s) k"
  then show hit: "is_processed Runs k s = (Inr True, s\<lparr>cache := insert k (cache s)\<rparr>)"
    by (simp add: is_processed_def attempt_def)
  have "k \<in> cache (snd (is_processed Runs k s))" by (simp add: hit)
  then show "is_processed io' k (run cs (snd (is_processed Runs k s))) =
      (Inr True, run cs (snd (is_processed Runs k s)))"
    by (rule is_processed_cached_run)
next
  assume "k \<notin> cache s \<and> conn_open s \<and> \<not> select_one (table s) k"
  then show "is_processed Runs k s = (Inr False, s)"
    by (simp add: is_processed_def attempt_def)
qed

theorem is_processed_two_tier_witness:
  "is_processed Raises (''orders'', ''e1'')
     \<lparr>cache = {(''orders'', ''e1'')}, conn_open = False, table = [], durable = []\<rparr> =
     (Inr True, \<lparr>cache = {(''orders'', ''e1'')}, conn_open = False, table = [], durable = []\<rparr>) \<and>
   is_processed Runs (''orders'', ''e1'')
     \<lparr>cache = {}, conn_open = True, table = [((''orders'', ''e1''), 7)],
      durable = [((''orders'', ''e1''), 7)]\<rparr> =
     (Inr True, \<lparr>cache = {(''orders'', ''e1'')}, conn_open = True,
        table = [((''orders'', ''e1''), 7)], durable = [((''orders'', ''e1''), 7)]\<rparr>) \<and>
   is_processed Raises (''orders'', ''e1'')
     (run [Close] (snd (is_processed Runs (''orders'', ''e1'')
        \<lparr>cache = {}, conn_open = True, table = [((''orders'', ''e1''), 7)],
         durable = [((''orders'', ''e1''), 7)]\<rparr>))) =
     (Inr True, \<lparr>cache = {(''orders'', ''e1'')}, conn_open = False,
        table = [((''orders'', ''e1''), 7)], durable = [((''orders'', ''e1''), 7)]\<rparr>) \<and>
   is_processed Runs (''orders'', ''e2'')
     \<lparr>cache = {}, conn_open = True, table = [((''orders'', ''e1''), 7)],
      durable = [((''orders'', ''e1''), 7)]\<rparr> =
     (Inr False, \<lparr>cache = {}, conn_open = True, table = [((''orders'', ''e1''), 7)],
        durable = [((''orders'', ''e1''), 7)]\<rparr>)"
  using
    is_processed_two_tier [of "(''orders'', ''e1'')"
      "\<lparr>cache = {(''orders'', ''e1'')}, conn_open = False, table = [], durable = []\<rparr>"
      Raises Raises "[]"]
    is_processed_two_tier [of "(''orders'', ''e1'')"
      "\<lparr>cache = {}, conn_open = True, table = [((''orders'', ''e1''), 7)],
        durable = [((''orders'', ''e1''), 7)]\<rparr>" Runs Raises "[Close]"]
    is_processed_two_tier [of "(''orders'', ''e2'')"
      "\<lparr>cache = {}, conn_open = True, table = [((''orders'', ''e1''), 7)],
        durable = [((''orders'', ''e1''), 7)]\<rparr>" Runs Raises "[]"]
  by (simp add: select_one_def close_def is_processed_def attempt_def)

subsection \<open>One row for a key\<close>

lemma insert_or_ignore_present:
  "k \<in> set (map fst rows) \<Longrightarrow> insert_or_ignore now k rows = rows"
  by (simp add: insert_or_ignore_def)

lemma distinct_insert_or_ignore:
  "distinct (map fst rows) \<Longrightarrow> distinct (map fst (insert_or_ignore now k rows))"
  by (simp add: insert_or_ignore_def)

lemma distinct_keys_step:
  assumes "distinct (map fst (table s))" and "distinct (map fst (durable s))"
  shows "distinct (map fst (table (step c s))) \<and> distinct (map fst (durable (step c s)))"
proof (cases c)
  case (Is_processed io k)
  with assms show ?thesis
    by (simp add: is_processed_def split: option.splits)
next
  case (Mark_processed io_insert io_commit now k)
  with assms show ?thesis
    by (simp add: mark_processed_def Let_def distinct_insert_or_ignore split: option.splits)
next
  case Close
  with assms show ?thesis by (simp add: close_def)
qed

lemma distinct_keys_run:
  "distinct (map fst (table s)) \<Longrightarrow> distinct (map fst (durable s)) \<Longrightarrow>
   distinct (map fst (table (run cs s))) \<and> distinct (map fst (durable (run cs s)))"
proof (induction cs arbitrary: s)
  case Nil
  then show ?case by simp
next
  case (Cons c cs)
  from distinct_keys_step [OF Cons.prems]
  have "distinct (map fst (table (step c s)))" and "distinct (map fst (durable (step c s)))"
    by simp_all
  then show ?case using Cons.IH by simp
qed

lemma distinct_keys_new:
  assumes "DeduplicationStore io_connect io_create io_commit io_load file = Inr s"
  shows "table s = file" and "durable s = file" and "conn_open s"
  using assms
  by (auto simp: DeduplicationStore_def load_cache_def opened_def split: if_splits option.splits)

lemma rows_of_key_le_1:
  "distinct (map fst rows) \<Longrightarrow> length (filter (\<lambda>r. fst r = k) rows) \<le> 1"
proof (induction rows)
  case Nil
  show ?case by simp
next
  case (Cons r rows)
  show ?case
  proof (cases "fst r = k")
    case True
    with Cons.prems have "k \<notin> fst ` set rows" by simp
    then have "filter (\<lambda>r. fst r = k) rows = []"
      by (auto simp: filter_empty_conv)
    with True show ?thesis by simp
  next
    case False
    with Cons show ?thesis by simp
  qed
qed

text \<open>
  C3. Take the database file as the engine keeps it (no two rows with one key; a new
  file has no rows), an instance constructed on it, and any sequence of calls, the
  \<^verbatim>\<open>mark_processed\<close> calls repeated or not. Then the table and the committed file hold
  at most one row for every key. A \<^verbatim>\<open>mark_processed\<close> whose insert runs for a key that
  has a row leaves the table as it is.
\<close>

theorem ledger_one_row_per_key:
  assumes "distinct (map fst file)"
    and "DeduplicationStore io_connect io_create io_commit io_load file = Inr s0"
  shows "length (filter (\<lambda>r. fst r = k) (table (run cs s0))) \<le> 1
    \<and> length (filter (\<lambda>r. fst r = k) (durable (run cs s0))) \<le> 1
    \<and> (k \<in> set (map fst (table (run cs s0))) \<longrightarrow>
         table (mark_processed Runs io now k (run cs s0)) = table (run cs s0))"
proof -
  from distinct_keys_new [OF assms(2)] assms(1)
  have "distinct (map fst (table s0))" and "distinct (map fst (durable s0))"
    by simp_all
  from distinct_keys_run [OF this]
  have d: "distinct (map fst (table (run cs s0)))" "distinct (map fst (durable (run cs s0)))"
    by simp_all
  have "k \<in> set (map fst (table (run cs s0))) \<Longrightarrow>
      table (mark_processed Runs io now k (run cs s0)) = table (run cs s0)"
    by (simp add: mark_processed_def Let_def insert_or_ignore_def split: option.splits)
  with rows_of_key_le_1 [OF d(1), of k] rows_of_key_le_1 [OF d(2), of k]
  show ?thesis by blast
qed

theorem ledger_one_row_per_key_witness:
  "distinct (map fst ([] :: row list))
   \<and> DeduplicationStore Runs Runs Runs Runs [] =
       Inr \<lparr>cache = {}, conn_open = True, table = [], durable = []\<rparr>
   \<and> table (run [Mark_processed Runs Runs 3 (''orders'', ''e1''),
                  Mark_processed Runs Runs 4 (''orders'', ''e1'')]
        \<lparr>cache = {}, conn_open = True, table = [], durable = []\<rparr>) = [((''orders'', ''e1''), 3)]
   \<and> length (filter (\<lambda>r. fst r = (''orders'', ''e1''))
        (table (run [Mark_processed Runs Runs 3 (''orders'', ''e1''),
                     Mark_processed Runs Runs 4 (''orders'', ''e1'')]
          \<lparr>cache = {}, conn_open = True, table = [], durable = []\<rparr>))) \<le> 1
   \<and> length (filter (\<lambda>r. fst r = (''orders'', ''e1''))
        (durable (run [Mark_processed Runs Runs 3 (''orders'', ''e1''),
                       Mark_processed Runs Runs 4 (''orders'', ''e1'')]
          \<lparr>cache = {}, conn_open = True, table = [], durable = []\<rparr>))) \<le> 1
   \<and> table (mark_processed Runs Runs 5 (''orders'', ''e1'')
        (run [Mark_processed Runs Runs 3 (''orders'', ''e1''),
              Mark_processed Runs Runs 4 (''orders'', ''e1'')]
          \<lparr>cache = {}, conn_open = True, table = [], durable = []\<rparr>)) = [((''orders'', ''e1''), 3)]"
proof -
  have c: "DeduplicationStore Runs Runs Runs Runs [] =
      Inr \<lparr>cache = {}, conn_open = True, table = [], durable = []\<rparr>"
    by (simp add: DeduplicationStore_def load_cache_def opened_def attempt_def select_recent_def)
  have t: "table (run [Mark_processed Runs Runs 3 (''orders'', ''e1''),
                  Mark_processed Runs Runs 4 (''orders'', ''e1'')]
        \<lparr>cache = {}, conn_open = True, table = [], durable = []\<rparr>) = [((''orders'', ''e1''), 3)]"
    by (simp add: mark_processed_def attempt_def insert_or_ignore_def)
  have d: "distinct (map fst ([] :: row list))" by simp
  from ledger_one_row_per_key [OF d c, of "(''orders'', ''e1'')"
      "[Mark_processed Runs Runs 3 (''orders'', ''e1''),
        Mark_processed Runs Runs 4 (''orders'', ''e1'')]" Runs 5] c t
  show ?thesis by simp
qed

subsection \<open>Writing a key twice, and a write that fails\<close>

lemma mark_processed_again:
  assumes "conn_open s"
  shows "mark_processed io_insert io_commit now' k (mark_processed Runs Runs now k s) =
    mark_processed Runs Runs now k s"
proof -
  have present: "k \<in> set (map fst (insert_or_ignore now k (table s)))"
    by (simp add: insert_or_ignore_def)
  have again: "insert_or_ignore now' k (insert_or_ignore now k (table s)) =
      insert_or_ignore now k (table s)"
    using present by (rule insert_or_ignore_present)
  from assms show ?thesis
    by (simp add: mark_processed_def Let_def attempt_def again split: option.splits)
qed

lemma map_of_insert_or_ignore_new:
  "k \<notin> set (map fst rows) \<Longrightarrow> map_of (insert_or_ignore now k rows) k = Some now"
  by (simp add: insert_or_ignore_def map_add_Some_iff map_of_eq_None_iff)

text \<open>
  C4. After two \<^verbatim>\<open>mark_processed\<close> calls for one key, \<^verbatim>\<open>is_processed\<close> answers true.
  If the key has a row after the first call, the second leaves the table as it is,
  whatever the clock shows then. If the first call ran on an open connection and
  committed, the second call leaves the whole instance as it is (cache, table and
  committed file), whether its own statements run or raise; and when the first call
  created the row at time \<open>now\<close>, the row of the key still carries \<open>now\<close> after the
  second call at time \<open>now'\<close>.
\<close>

theorem mark_processed_idempotent:
  "is_processed io k (mark_processed i2 c2 now' k (mark_processed i1 c1 now k s)) =
     (Inr True, mark_processed i2 c2 now' k (mark_processed i1 c1 now k s))
   \<and> (k \<in> set (map fst (table (mark_processed i1 c1 now k s))) \<longrightarrow>
        table (mark_processed i2 c2 now' k (mark_processed i1 c1 now k s)) =
        table (mark_processed i1 c1 now k s))
   \<and> (conn_open s \<longrightarrow>
        mark_processed i2 c2 now' k (mark_processed Runs Runs now k s) =
        mark_processed Runs Runs now k s)
   \<and> (conn_open s \<and> k \<notin> set (map fst (table s)) \<longrightarrow>
        map_of (table (mark_processed i2 c2 now' k (mark_processed Runs Runs now k s))) k =
        Some now)"
proof (intro conjI impI)
  show "is_processed io k (mark_processed i2 c2 now' k (mark_processed i1 c1 now k s)) =
     (Inr True, mark_processed i2 c2 now' k (mark_processed i1 c1 now k s))"
    by (simp add: is_processed_cached cache_mark_processed)
next
  assume "k \<in> set (map fst (table (mark_processed i1 c1 now k s)))"
  then show "table (mark_processed i2 c2 now' k (mark_processed i1 c1 now k s)) =
        table (mark_processed i1 c1 now k s)"
    by (simp add: mark_processed_def [of i2] Let_def insert_or_ignore_def split: option.splits)
next
  assume "conn_open s"
  then show "mark_processed i2 c2 now' k (mark_processed Runs Runs now k s) =
        mark_processed Runs Runs now k s"
    by (rule mark_processed_again)
next
  assume h: "conn_open s \<and> k \<notin> set (map fst (table s))"
  then have "mark_processed i2 c2 now' k (mark_processed Runs Runs now k s) =
        mark_processed Runs Runs now k s"
    by (simp add: mark_processed_again)
  moreover from h have "table (mark_processed Runs Runs now k s) =
      insert_or_ignore now k (table s)"
    by (simp add: mark_processed_def Let_def attempt_def)
  ultimately show "map_of (table (mark_processed i2 c2 now' k
      (mark_processed Runs Runs now k s))) k = Some now"
    using h by (simp add: map_of_insert_or_ignore_new)
qed

theorem mark_processed_idempotent_witness:
  "mark_processed Runs Runs 3 (''orders'', ''e1'')
      \<lparr>cache = {}, conn_open = True, table = [], durable = []\<rparr> =
     \<lparr>cache = {(''orders'', ''e1'')}, conn_open = True,
      table = [((''orders'', ''e1''), 3)], durable = [((''orders'', ''e1''), 3)]\<rparr>
   \<and> mark_processed Runs Runs 9 (''orders'', ''e1'')
       (mark_processed Runs Runs 3 (''orders'', ''e1'')
          \<lparr>cache = {}, conn_open = True, table = [], durable = []\<rparr>) =
     \<lparr>cache = {(''orders'', ''e1'')}, conn_open = True,
      table = [((''orders'', ''e1''), 3)], durable = [((''orders'', ''e1''), 3)]\<rparr>
   \<and> map_of (table (mark_processed Runs Runs 9 (''orders'', ''e1'')
       (mark_processed Runs Runs 3 (''orders'', ''e1'')
          \<lparr>cache = {}, conn_open = True, table = [], durable = []\<rparr>))) (''orders'', ''e1'') =
     Some 3
   \<and> fst (is_processed Raises (''orders'', ''e1'')
       (mark_processed Runs Runs 9 (''orders'', ''e1'')
         (mark_processed Runs Runs 3 (''orders'', ''e1'')
            \<lparr>cache = {}, conn_open = True, table = [], durable = []\<rparr>))) = Inr True"
proof -
  have m: "mark_processed Runs Runs 3 (''orders'', ''e1'')
      \<lparr>cache = {}, conn_open = True, table = [], durable = []\<rparr> =
     \<lparr>cache = {(''orders'', ''e1'')}, conn_open = True,
      table = [((''orders'', ''e1''), 3)], durable = [((''orders'', ''e1''), 3)]\<rparr>"
    by (simp add: mark_processed_def attempt_def insert_or_ignore_def)
  from mark_processed_idempotent [of Raises "(''orders'', ''e1'')" Runs Runs 9 Runs Runs 3
      "\<lparr>cache = {}, conn_open = True, table = [], durable = []\<rparr>"] m
  show ?thesis by (simp add: is_processed_def)
qed

text \<open>
  C7. A \<^verbatim>\<open>mark_processed\<close> whose insert raises (the connection is closed or the engine
  raises) or whose commit raises, for a key that has no committed row: the key is in
  the cache afterwards, the committed file is what it was and has no row for the key,
  and \<^verbatim>\<open>is_processed\<close> answers true from the cache. When it is the insert that raised,
  the table too is what it was, so a key with no row there still has none.
\<close>

theorem failed_write_keeps_cache_entry:
  assumes "\<not> conn_open s \<or> io_insert = Raises \<or> io_commit = Raises"
    and "k \<notin> set (map fst (durable s))"
  shows "k \<in> cache (mark_processed io_insert io_commit now k s)
    \<and> durable (mark_processed io_insert io_commit now k s) = durable s
    \<and> k \<notin> set (map fst (durable (mark_processed io_insert io_commit now k s)))
    \<and> is_processed io k (mark_processed io_insert io_commit now k s) =
        (Inr True, mark_processed io_insert io_commit now k s)
    \<and> (\<not> conn_open s \<or> io_insert = Raises \<longrightarrow>
         table (mark_processed io_insert io_commit now k s) = table s
         \<and> (\<not> select_one (table s) k \<longrightarrow>
              \<not> select_one (table (mark_processed io_insert io_commit now k s)) k))"
proof -
  have c: "k \<in> cache (mark_processed io_insert io_commit now k s)"
    by (rule cache_mark_processed)
  have d: "durable (mark_processed io_insert io_commit now k s) = durable s"
    using assms(1)
    by (auto simp: mark_processed_def Let_def attempt_def split: option.splits if_splits)
  have t: "\<not> conn_open s \<or> io_insert = Raises \<Longrightarrow>
      table (mark_processed io_insert io_commit now k s) = table s"
    by (auto simp: mark_processed_def Let_def attempt_def split: option.splits if_splits)
  from c d t assms(2) show ?thesis
    by (auto simp: is_processed_cached)
qed

theorem failed_write_keeps_cache_entry_witness:
  "(''orders'', ''e1'') \<notin> set (map fst (durable
        \<lparr>cache = {}, conn_open = True, table = [], durable = []\<rparr>))
   \<and> mark_processed Raises Runs 3 (''orders'', ''e1'')
        \<lparr>cache = {}, conn_open = True, table = [], durable = []\<rparr> =
      \<lparr>cache = {(''orders'', ''e1'')}, conn_open = True, table = [], durable = []\<rparr>
   \<and> is_processed Runs (''orders'', ''e1'')
        (mark_processed Raises Runs 3 (''orders'', ''e1'')
           \<lparr>cache = {}, conn_open = True, table = [], durable = []\<rparr>) =
      (Inr True, \<lparr>cache = {(''orders'', ''e1'')}, conn_open = True, table = [], durable = []\<rparr>)
   \<and> \<not> select_one (table (mark_processed Raises Runs 3 (''orders'', ''e1'')
           \<lparr>cache = {}, conn_open = True, table = [], durable = []\<rparr>)) (''orders'', ''e1'')"
proof -
  have a: "\<not> conn_open \<lparr>cache = {}, conn_open = True, table = [], durable = []\<rparr>
      \<or> Raises = Raises \<or> Runs = Raises"
    by simp
  have b: "(''orders'', ''e1'') \<notin> set (map fst (durable
        \<lparr>cache = {}, conn_open = True, table = [], durable = []\<rparr>))"
    by simp
  have m: "mark_processed Raises Runs 3 (''orders'', ''e1'')
        \<lparr>cache = {}, conn_open = True, table = [], durable = []\<rparr> =
      \<lparr>cache = {(''orders'', ''e1'')}, conn_open = True, table = [], durable = []\<rparr>"
    by (simp add: mark_processed_def attempt_def)
  from failed_write_keeps_cache_entry [OF a b, of 3 Runs] m
  show ?thesis by (simp add: select_one_def)
qed

subsection \<open>Errors of the engine\<close>

text \<open>
  C6. The lookup of \<^verbatim>\<open>is_processed\<close> is not inside a \<^verbatim>\<open>try\<close>, unlike the statements of
  \<^verbatim>\<open>mark_processed\<close> and \<^verbatim>\<open>_load_cache\<close>. On an instance that was closed, a call for a
  key that is not in the cache ends with \<^verbatim>\<open>sqlite3.ProgrammingError\<close>; on an open
  instance whose engine raises during the lookup it ends with
  \<^verbatim>\<open>sqlite3.OperationalError\<close>. In both cases the caller gets the exception and no
  answer.
\<close>

theorem is_processed_lookup_error_escapes:
  "is_processed Runs (''orders'', ''e1'') (close (opened [])) =
     (Inl ProgrammingError, \<lparr>cache = {}, conn_open = False, table = [], durable = []\<rparr>)
   \<and> is_processed Raises (''orders'', ''e1'') (opened []) =
     (Inl OperationalError, \<lparr>cache = {}, conn_open = True, table = [], durable = []\<rparr>)
   \<and> DeduplicationStore Runs Runs Runs Runs [] = Inr (opened [])"
  by (simp add: is_processed_def close_def opened_def attempt_def DeduplicationStore_def
      load_cache_def select_recent_def)

lemma load_cache_raises: "load_cache Raises s = s"
  by (simp add: load_cache_def attempt_def)

lemma construct_fails_iff:
  "(\<exists>e. DeduplicationStore io_connect io_create io_commit io_load file = Inl e) \<longleftrightarrow>
     (io_connect = Raises \<or> io_create = Raises \<or> io_commit = Raises)"
  by (simp add: DeduplicationStore_def)

text \<open>
  C10. The constructor ends with an exception exactly when \<^verbatim>\<open>sqlite3.connect\<close>, the
  \<^verbatim>\<open>CREATE TABLE\<close> or its commit raises. A query of \<^verbatim>\<open>_load_cache\<close> that raises is
  caught: \<^verbatim>\<open>_load_cache\<close> leaves the instance as it is, the constructor returns an
  open instance whose cache is the empty set, and a lookup that runs answers true
  for every key that has a row in the file, through the table.
\<close>

theorem warm_up_failure_not_fatal:
  "load_cache Raises s = s
   \<and> DeduplicationStore Runs Runs Runs Raises file =
       Inr \<lparr>cache = {}, conn_open = True, table = file, durable = file\<rparr>
   \<and> ((\<exists>e. DeduplicationStore io_connect io_create io_commit io_load file = Inl e) \<longleftrightarrow>
        (io_connect = Raises \<or> io_create = Raises \<or> io_commit = Raises))
   \<and> (k \<in> set (map fst file) \<longrightarrow>
        is_processed Runs k \<lparr>cache = {}, conn_open = True, table = file, durable = file\<rparr> =
          (Inr True, \<lparr>cache = {k}, conn_open = True, table = file, durable = file\<rparr>))
   \<and> (k \<notin> set (map fst file) \<longrightarrow>
        is_processed Runs k \<lparr>cache = {}, conn_open = True, table = file, durable = file\<rparr> =
          (Inr False, \<lparr>cache = {}, conn_open = True, table = file, durable = file\<rparr>))"
proof (intro conjI impI)
  show "load_cache Raises s = s" by (rule load_cache_raises)
  show "DeduplicationStore Runs Runs Runs Raises file =
       Inr \<lparr>cache = {}, conn_open = True, table = file, durable = file\<rparr>"
    by (simp add: DeduplicationStore_def load_cache_raises opened_def)
  show "(\<exists>e. DeduplicationStore io_connect io_create io_commit io_load file = Inl e) \<longleftrightarrow>
        (io_connect = Raises \<or> io_create = Raises \<or> io_commit = Raises)"
    by (rule construct_fails_iff)
next
  assume "k \<in> set (map fst file)"
  then show "is_processed Runs k \<lparr>cache = {}, conn_open = True, table = file, durable = file\<rparr> =
          (Inr True, \<lparr>cache = {k}, conn_open = True, table = file, durable = file\<rparr>)"
    by (simp add: is_processed_def attempt_def select_one_def)
next
  assume "k \<notin> set (map fst file)"
  then show "is_processed Runs k \<lparr>cache = {}, conn_open = True, table = file, durable = file\<rparr> =
          (Inr False, \<lparr>cache = {}, conn_open = True, table = file, durable = file\<rparr>)"
    by (simp add: is_processed_def attempt_def select_one_def)
qed

theorem warm_up_failure_not_fatal_witness:
  "DeduplicationStore Runs Runs Runs Raises [((''orders'', ''e1''), 3)] =
     Inr \<lparr>cache = {}, conn_open = True, table = [((''orders'', ''e1''), 3)],
          durable = [((''orders'', ''e1''), 3)]\<rparr>
   \<and> DeduplicationStore Runs Raises Runs Runs [((''orders'', ''e1''), 3)] = Inl OperationalError
   \<and> is_processed Runs (''orders'', ''e1'')
        \<lparr>cache = {}, conn_open = True, table = [((''orders'', ''e1''), 3)],
         durable = [((''orders'', ''e1''), 3)]\<rparr> =
       (Inr True, \<lparr>cache = {(''orders'', ''e1'')}, conn_open = True,
          table = [((''orders'', ''e1''), 3)], durable = [((''orders'', ''e1''), 3)]\<rparr>)
   \<and> is_processed Runs (''orders'', ''e2'')
        \<lparr>cache = {}, conn_open = True, table = [((''orders'', ''e1''), 3)],
         durable = [((''orders'', ''e1''), 3)]\<rparr> =
       (Inr False, \<lparr>cache = {}, conn_open = True, table = [((''orders'', ''e1''), 3)],
         durable = [((''orders'', ''e1''), 3)]\<rparr>)"
  using
    warm_up_failure_not_fatal [of "opened []" "[((''orders'', ''e1''), 3)]" Runs Raises Runs Runs
      "(''orders'', ''e1'')"]
    warm_up_failure_not_fatal [of "opened []" "[((''orders'', ''e1''), 3)]" Runs Raises Runs Runs
      "(''orders'', ''e2'')"]
  by (simp add: DeduplicationStore_def)

subsection \<open>Keys that were never written, and keys that were\<close>

lemma set_place_desc: "set (place_desc r xs) = insert r (set xs)"
  by (induction xs) auto

lemma set_order_by_processed_at_desc: "set (order_by_processed_at_desc rows) = set rows"
  by (induction rows) (simp_all add: set_place_desc)

lemma select_recent_subset: "set (select_recent n rows) \<subseteq> set (map fst rows)"
proof -
  have "set (take n (order_by_processed_at_desc rows)) \<subseteq> set rows"
    using set_take_subset [of n "order_by_processed_at_desc rows"]
    by (simp add: set_order_by_processed_at_desc)
  then show ?thesis by (auto simp: select_recent_def)
qed

lemma cache_new_subset:
  assumes "DeduplicationStore io_connect io_create io_commit io_load file = Inr s"
  shows "cache s \<subseteq> set (map fst file)"
proof (cases "attempt (opened file) io_load")
  case None
  with assms have "cache s = set (select_recent CACHE_SIZE file)"
    by (auto simp: DeduplicationStore_def load_cache_def opened_def split: if_splits)
  then show ?thesis using select_recent_subset by simp
next
  case (Some e)
  with assms have "cache s = {}"
    by (auto simp: DeduplicationStore_def load_cache_def opened_def split: if_splits)
  then show ?thesis by simp
qed

lemma absent_step:
  assumes "k \<notin> marked c"
    and "k \<notin> cache s" and "k \<notin> set (map fst (table s))" and "k \<notin> set (map fst (durable s))"
  shows "k \<notin> cache (step c s) \<and> k \<notin> set (map fst (table (step c s)))
    \<and> k \<notin> set (map fst (durable (step c s)))"
proof (cases c)
  case (Is_processed io k')
  with assms show ?thesis
    by (auto simp: is_processed_def select_one_def split: option.splits)
next
  case (Mark_processed io_insert io_commit now k')
  with assms have "k' \<noteq> k" by simp
  with Mark_processed assms(2-4) show ?thesis
    by (auto simp: mark_processed_def Let_def insert_or_ignore_def split: option.splits)
next
  case Close
  with assms show ?thesis by (simp add: close_def)
qed

lemma absent_run:
  "\<forall>c \<in> set cs. k \<notin> marked c \<Longrightarrow>
   k \<notin> cache s \<Longrightarrow> k \<notin> set (map fst (table s)) \<Longrightarrow> k \<notin> set (map fst (durable s)) \<Longrightarrow>
   k \<notin> cache (run cs s) \<and> k \<notin> set (map fst (table (run cs s)))
     \<and> k \<notin> set (map fst (durable (run cs s)))"
proof (induction cs arbitrary: s)
  case Nil
  then show ?case by simp
next
  case (Cons c cs)
  from Cons.prems have "k \<notin> marked c" by simp
  from absent_step [OF this Cons.prems(2-4)]
  have "k \<notin> cache (step c s)" "k \<notin> set (map fst (table (step c s)))"
    "k \<notin> set (map fst (durable (step c s)))"
    by simp_all
  moreover from Cons.prems have "\<forall>c \<in> set cs. k \<notin> marked c" by simp
  ultimately show ?case using Cons.IH [of "step c s"] by simp
qed

text \<open>
  C8. Take a database file with no row for the key, an instance constructed on it,
  and any sequence of calls among which no \<^verbatim>\<open>mark_processed\<close> is for the key. Then
  neither tier holds the key, and a further \<^verbatim>\<open>is_processed\<close> for the key leaves the
  instance (cache, table and committed file) as it is and never answers true; on an
  open connection a lookup that runs answers false.
\<close>

theorem unknown_key_not_processed:
  assumes "k \<notin> set (map fst file)"
    and "DeduplicationStore io_connect io_create io_commit io_load file = Inr s0"
    and "\<forall>c \<in> set cs. k \<notin> marked c"
  shows "k \<notin> cache (run cs s0) \<and> k \<notin> set (map fst (table (run cs s0)))
    \<and> k \<notin> set (map fst (durable (run cs s0)))
    \<and> snd (is_processed io k (run cs s0)) = run cs s0
    \<and> fst (is_processed io k (run cs s0)) \<noteq> Inr True
    \<and> (conn_open (run cs s0) \<longrightarrow> is_processed Runs k (run cs s0) = (Inr False, run cs s0))"
proof -
  from cache_new_subset [OF assms(2)] assms(1) have "k \<notin> cache s0" by auto
  moreover from distinct_keys_new [OF assms(2)] assms(1)
  have "k \<notin> set (map fst (table s0))" and "k \<notin> set (map fst (durable s0))"
    by simp_all
  ultimately have a: "k \<notin> cache (run cs s0) \<and> k \<notin> set (map fst (table (run cs s0)))
      \<and> k \<notin> set (map fst (durable (run cs s0)))"
    using absent_run [OF assms(3)] by simp
  then have "snd (is_processed io k (run cs s0)) = run cs s0"
    and "fst (is_processed io k (run cs s0)) \<noteq> Inr True"
    and "conn_open (run cs s0) \<Longrightarrow> is_processed Runs k (run cs s0) = (Inr False, run cs s0)"
    by (auto simp: is_processed_def select_one_def attempt_def split: option.splits)
  with a show ?thesis by blast
qed

theorem unknown_key_not_processed_witness:
  "(''orders'', ''never-seen'') \<notin> set (map fst [((''orders'', ''e1''), 3)])
   \<and> DeduplicationStore Runs Runs Runs Runs [((''orders'', ''e1''), 3)] =
       Inr \<lparr>cache = {(''orders'', ''e1'')}, conn_open = True,
            table = [((''orders'', ''e1''), 3)], durable = [((''orders'', ''e1''), 3)]\<rparr>
   \<and> (''orders'', ''never-seen'') \<notin> marked (Mark_processed Runs Runs 5 (''orders'', ''e2''))
   \<and> run [Mark_processed Runs Runs 5 (''orders'', ''e2'')]
        \<lparr>cache = {(''orders'', ''e1'')}, conn_open = True,
         table = [((''orders'', ''e1''), 3)], durable = [((''orders'', ''e1''), 3)]\<rparr> =
       \<lparr>cache = {(''orders'', ''e2''), (''orders'', ''e1'')}, conn_open = True,
        table = [((''orders'', ''e1''), 3), ((''orders'', ''e2''), 5)],
        durable = [((''orders'', ''e1''), 3), ((''orders'', ''e2''), 5)]\<rparr>
   \<and> is_processed Runs (''orders'', ''never-seen'')
        \<lparr>cache = {(''orders'', ''e2''), (''orders'', ''e1'')}, conn_open = True,
         table = [((''orders'', ''e1''), 3), ((''orders'', ''e2''), 5)],
         durable = [((''orders'', ''e1''), 3), ((''orders'', ''e2''), 5)]\<rparr> =
       (Inr False,
        \<lparr>cache = {(''orders'', ''e2''), (''orders'', ''e1'')}, conn_open = True,
         table = [((''orders'', ''e1''), 3), ((''orders'', ''e2''), 5)],
         durable = [((''orders'', ''e1''), 3), ((''orders'', ''e2''), 5)]\<rparr>)"
proof -
  have a: "(''orders'', ''never-seen'') \<notin> set (map fst [((''orders'', ''e1''), 3 :: nat)])"
    by simp
  have b: "DeduplicationStore Runs Runs Runs Runs [((''orders'', ''e1''), 3)] =
       Inr \<lparr>cache = {(''orders'', ''e1'')}, conn_open = True,
            table = [((''orders'', ''e1''), 3)], durable = [((''orders'', ''e1''), 3)]\<rparr>"
    by (simp add: DeduplicationStore_def load_cache_def opened_def attempt_def
        select_recent_def CACHE_SIZE_def)
  have c: "\<forall>c \<in> set [Mark_processed Runs Runs 5 (''orders'', ''e2'')].
      (''orders'', ''never-seen'') \<notin> marked c"
    by simp
  have r: "run [Mark_processed Runs Runs 5 (''orders'', ''e2'')]
        \<lparr>cache = {(''orders'', ''e1'')}, conn_open = True,
         table = [((''orders'', ''e1''), 3)], durable = [((''orders'', ''e1''), 3)]\<rparr> =
       \<lparr>cache = {(''orders'', ''e2''), (''orders'', ''e1'')}, conn_open = True,
        table = [((''orders'', ''e1''), 3), ((''orders'', ''e2''), 5)],
        durable = [((''orders'', ''e1''), 3), ((''orders'', ''e2''), 5)]\<rparr>"
    by (simp add: mark_processed_def attempt_def insert_or_ignore_def)
  from unknown_key_not_processed [OF a b c, of Runs] a b r
  show ?thesis by simp
qed

lemma run_append: "run (cs @ cs') s = run cs' (run cs s)"
  by (induction cs arbitrary: s) simp_all

lemma set_insert_or_ignore: "set rows \<subseteq> set (insert_or_ignore now k rows)"
  by (auto simp: insert_or_ignore_def)

lemma committed_step:
  assumes "set (durable s) \<subseteq> set (table s)"
  shows "set (durable s) \<subseteq> set (durable (step c s))
    \<and> set (durable (step c s)) \<subseteq> set (table (step c s))"
proof (cases c)
  case (Is_processed io k)
  with assms show ?thesis
    by (simp add: is_processed_def split: option.splits)
next
  case (Mark_processed io_insert io_commit now k)
  from assms set_insert_or_ignore [of "table s" now k]
  have "set (durable s) \<subseteq> set (insert_or_ignore now k (table s))" by blast
  with Mark_processed assms show ?thesis
    by (simp add: mark_processed_def Let_def split: option.splits)
next
  case Close
  then show ?thesis by (simp add: close_def)
qed

lemma committed_run:
  "set (durable s) \<subseteq> set (table s) \<Longrightarrow>
   set (durable s) \<subseteq> set (durable (run cs s))
     \<and> set (durable (run cs s)) \<subseteq> set (table (run cs s))"
proof (induction cs arbitrary: s)
  case Nil
  then show ?case by simp
next
  case (Cons c cs)
  from committed_step [OF Cons.prems, of c]
  have 1: "set (durable s) \<subseteq> set (durable (step c s))"
    and 2: "set (durable (step c s)) \<subseteq> set (table (step c s))"
    by simp_all
  from Cons.IH [OF 2] 1 show ?case by auto
qed

lemma is_processed_True_cached:
  "fst (is_processed io k s) = Inr True \<Longrightarrow> k \<in> cache (snd (is_processed io k s))"
  by (auto simp: is_processed_def split: option.splits if_splits)

text \<open>
  C9, as the code has it. For an instance constructed on a database file and any
  calls: no row of the file is ever missing from the committed file afterwards, and
  further calls only add committed rows and cache entries. Within the instance, once
  \<^verbatim>\<open>is_processed\<close> has answered true for a key, it answers true for it after any
  further calls, whatever the engine does. A later instance constructed on the
  committed file answers true, while its connection is open and the lookup runs,
  for every key that had a committed row, and answers false for every key that had
  none, whether or not the key was in the cache of the earlier instance.
\<close>

theorem keys_only_gained:
  assumes "DeduplicationStore io_connect io_create io_commit io_load file = Inr s0"
  shows "set file \<subseteq> set (durable (run cs s0))
    \<and> set (durable (run cs s0)) \<subseteq> set (durable (run (cs @ cs') s0))
    \<and> cache (run cs s0) \<subseteq> cache (run (cs @ cs') s0)
    \<and> (fst (is_processed io k (run cs s0)) = Inr True \<longrightarrow>
         is_processed io' k (run cs' (snd (is_processed io k (run cs s0)))) =
           (Inr True, run cs' (snd (is_processed io k (run cs s0)))))
    \<and> (k \<in> set (map fst (durable (run cs s0)))
         \<and> DeduplicationStore Runs Runs Runs io_load' (durable (run (cs @ cs') s0)) = Inr s1
         \<and> conn_open (run cs'' s1) \<longrightarrow>
         fst (is_processed Runs k (run cs'' s1)) = Inr True)
    \<and> (k \<notin> set (map fst (durable (run cs s0)))
         \<and> DeduplicationStore Runs Runs Runs io_load' (durable (run cs s0)) = Inr s2 \<longrightarrow>
         is_processed Runs k s2 = (Inr False, s2))"
proof (intro conjI impI)
  from distinct_keys_new [OF assms]
  have t0: "table s0 = file" and d0: "durable s0 = file" by simp_all
  then have c0: "set (durable s0) \<subseteq> set (table s0)" by simp
  from committed_run [OF c0, of cs] d0
  show "set file \<subseteq> set (durable (run cs s0))" by simp
  from committed_run [OF c0, of cs]
  have c1: "set (durable (run cs s0)) \<subseteq> set (table (run cs s0))" by simp
  from committed_run [OF c1, of cs']
  show mono: "set (durable (run cs s0)) \<subseteq> set (durable (run (cs @ cs') s0))"
    by (simp add: run_append)
  show "cache (run cs s0) \<subseteq> cache (run (cs @ cs') s0)"
    by (simp add: run_append cache_run)
  {
    assume "fst (is_processed io k (run cs s0)) = Inr True"
    then have "k \<in> cache (snd (is_processed io k (run cs s0)))"
      by (rule is_processed_True_cached)
    then show "is_processed io' k (run cs' (snd (is_processed io k (run cs s0)))) =
           (Inr True, run cs' (snd (is_processed io k (run cs s0))))"
      by (rule is_processed_cached_run)
  }
  {
    assume h: "k \<in> set (map fst (durable (run cs s0)))
         \<and> DeduplicationStore Runs Runs Runs io_load' (durable (run (cs @ cs') s0)) = Inr s1
         \<and> conn_open (run cs'' s1)"
    then have new: "DeduplicationStore Runs Runs Runs io_load' (durable (run (cs @ cs') s0)) = Inr s1"
      by simp
    from distinct_keys_new [OF new]
    have t1: "table s1 = durable (run (cs @ cs') s0)"
      and d1: "durable s1 = durable (run (cs @ cs') s0)" by simp_all
    then have c2: "set (durable s1) \<subseteq> set (table s1)" by simp
    from committed_run [OF c2, of cs''] d1
    have "set (durable (run (cs @ cs') s0)) \<subseteq> set (table (run cs'' s1))" by auto
    with mono have "set (durable (run cs s0)) \<subseteq> set (table (run cs'' s1))" by blast
    with h have "k \<in> set (map fst (table (run cs'' s1)))" by auto
    with h show "fst (is_processed Runs k (run cs'' s1)) = Inr True"
      by (simp add: is_processed_def attempt_def select_one_def)
  }
  {
    assume h: "k \<notin> set (map fst (durable (run cs s0)))
         \<and> DeduplicationStore Runs Runs Runs io_load' (durable (run cs s0)) = Inr s2"
    then have new: "DeduplicationStore Runs Runs Runs io_load' (durable (run cs s0)) = Inr s2"
      by simp
    from cache_new_subset [OF new] h have "k \<notin> cache s2" by auto
    moreover from distinct_keys_new [OF new] h
    have "k \<notin> set (map fst (table s2))" and "conn_open s2" by simp_all
    ultimately show "is_processed Runs k s2 = (Inr False, s2)"
      by (simp add: is_processed_def attempt_def select_one_def)
  }
qed

theorem keys_only_gained_witness:
  "DeduplicationStore Runs Runs Runs Runs [] = Inr (opened [])
   \<and> durable (run [Mark_processed Runs Runs 3 (''orders'', ''e1'')] (opened [])) =
       [((''orders'', ''e1''), 3)]
   \<and> durable (run ([Mark_processed Runs Runs 3 (''orders'', ''e1'')] @ [Close]) (opened [])) =
       [((''orders'', ''e1''), 3)]
   \<and> DeduplicationStore Runs Runs Runs Raises [((''orders'', ''e1''), 3)] =
       Inr (opened [((''orders'', ''e1''), 3)])
   \<and> conn_open (run [] (opened [((''orders'', ''e1''), 3)]))
   \<and> fst (is_processed Runs (''orders'', ''e1'') (run [] (opened [((''orders'', ''e1''), 3)]))) =
       Inr True
   \<and> fst (is_processed Runs (''orders'', ''e1'')
        (run [Mark_processed Runs Runs 3 (''orders'', ''e1'')] (opened []))) = Inr True
   \<and> is_processed Runs (''orders'', ''e2'') (opened [((''orders'', ''e1''), 3)]) =
       (Inr False, opened [((''orders'', ''e1''), 3)])
   \<and> is_processed Raises (''orders'', ''e1'')
        (run [Close] (snd (is_processed Runs (''orders'', ''e1'')
          (run [Mark_processed Runs Runs 3 (''orders'', ''e1'')] (opened []))))) =
       (Inr True, run [Close] (snd (is_processed Runs (''orders'', ''e1'')
          (run [Mark_processed Runs Runs 3 (''orders'', ''e1'')] (opened [])))))"
proof -
  have a: "DeduplicationStore Runs Runs Runs Runs [] = Inr (opened [])"
    by (simp add: DeduplicationStore_def load_cache_def opened_def attempt_def select_recent_def)
  have m: "run [Mark_processed Runs Runs 3 (''orders'', ''e1'')] (opened []) =
      \<lparr>cache = {(''orders'', ''e1'')}, conn_open = True,
       table = [((''orders'', ''e1''), 3)], durable = [((''orders'', ''e1''), 3)]\<rparr>"
    by (simp add: mark_processed_def opened_def attempt_def insert_or_ignore_def)
  have d: "durable (run ([Mark_processed Runs Runs 3 (''orders'', ''e1'')] @ [Close]) (opened [])) =
       [((''orders'', ''e1''), 3)]"
    by (simp add: mark_processed_def opened_def attempt_def insert_or_ignore_def close_def)
  have b: "DeduplicationStore Runs Runs Runs Raises [((''orders'', ''e1''), 3)] =
       Inr (opened [((''orders'', ''e1''), 3)])"
    by (simp add: DeduplicationStore_def load_cache_def attempt_def opened_def)
  have o: "conn_open (run [] (opened [((''orders'', ''e1''), 3)]))"
    by (simp add: opened_def)
  have t: "fst (is_processed Runs (''orders'', ''e1'')
        (run [Mark_processed Runs Runs 3 (''orders'', ''e1'')] (opened []))) = Inr True"
    by (simp add: mark_processed_def opened_def attempt_def insert_or_ignore_def
        is_processed_def)
  from keys_only_gained [OF a, of "[Mark_processed Runs Runs 3 (''orders'', ''e1'')]" "[Close]"
      Runs "(''orders'', ''e1'')" Raises Raises "opened [((''orders'', ''e1''), 3)]" "[]"]
    keys_only_gained [OF a, of "[Mark_processed Runs Runs 3 (''orders'', ''e1'')]" "[Close]"
      Runs "(''orders'', ''e2'')" Raises Raises "opened [((''orders'', ''e1''), 3)]" "[]"
      "opened [((''orders'', ''e1''), 3)]"]
    a b d o t m
  show ?thesis
    by (simp add: mark_processed_def opened_def attempt_def insert_or_ignore_def
        is_processed_def close_def select_one_def)
qed

text \<open>
  C9 as stated does not hold. On a new database file, the insert of
  \<^verbatim>\<open>mark_processed("orders", "e1")\<close> raises; the key is in the cache and
  \<^verbatim>\<open>is_processed\<close> answers true. The committed file still has no rows, so after
  \<^verbatim>\<open>close\<close> the next instance on the same path starts as the first one did, and its
  \<^verbatim>\<open>is_processed\<close> for the key answers false.
\<close>

theorem cache_only_key_forgotten:
  "DeduplicationStore Runs Runs Runs Runs [] = Inr (opened [])
   \<and> fst (is_processed Runs (''orders'', ''e1'')
        (mark_processed Raises Runs 3 (''orders'', ''e1'') (opened []))) = Inr True
   \<and> DeduplicationStore Runs Runs Runs Runs
        (durable (close (snd (is_processed Runs (''orders'', ''e1'')
          (mark_processed Raises Runs 3 (''orders'', ''e1'') (opened [])))))) = Inr (opened [])
   \<and> fst (is_processed Runs (''orders'', ''e1'') (opened [])) = Inr False"
  by (simp add: DeduplicationStore_def load_cache_def opened_def attempt_def select_recent_def
      is_processed_def mark_processed_def close_def select_one_def)

subsection \<open>The warm-up query\<close>

lemma place_desc_front:
  "\<forall>x \<in> set xs. snd x \<le> snd r \<Longrightarrow> place_desc r xs = r # xs"
  by (cases xs) simp_all

lemma order_same_second:
  "\<forall>x \<in> set rows. snd x = t \<Longrightarrow> order_by_processed_at_desc rows = rows"
  by (induction rows) (simp_all add: place_desc_front)

lemma run_mark_all:
  "conn_open s \<Longrightarrow> table s = durable s \<Longrightarrow> distinct (map fst (durable s @ kts)) \<Longrightarrow>
   conn_open (run (mark_all kts) s) \<and> table (run (mark_all kts) s) = durable s @ kts
     \<and> durable (run (mark_all kts) s) = durable s @ kts"
proof (induction kts arbitrary: s)
  case Nil
  then show ?case by simp
next
  case (Cons kt kts)
  obtain k now where kt: "kt = (k, now)" by (cases kt)
  let ?s = "mark_processed Runs Runs now k s"
  from Cons.prems kt have new: "k \<notin> set (map fst (table s))" by auto
  with Cons.prems have 1: "conn_open ?s" and 2: "table ?s = durable s @ [(k, now)]"
    and 3: "durable ?s = durable s @ [(k, now)]"
    by (simp_all add: mark_processed_def Let_def attempt_def insert_or_ignore_def)
  from 2 3 have 4: "table ?s = durable ?s" by simp
  from Cons.prems(3) kt 3 have 5: "distinct (map fst (durable ?s @ kts))" by simp
  from Cons.IH [OF 1 4 5] 3 kt show ?case by simp
qed

lemma durable_mark_all_new:
  "distinct (map fst kts) \<Longrightarrow> durable (run (mark_all kts) (opened [])) = kts"
  using run_mark_all [of "opened []" kts] by (simp add: opened_def)

lemma construct_runs:
  "DeduplicationStore Runs Runs Runs Runs file =
     Inr ((opened file)\<lparr>cache := set (select_recent CACHE_SIZE file)\<rparr>)"
  by (simp add: DeduplicationStore_def load_cache_def attempt_def opened_def)

lemma CACHE_SIZE_pos: "0 < CACHE_SIZE"
  by (simp add: CACHE_SIZE_def)

lemma event_key_eq: "event_key i = event_key j \<longleftrightarrow> i = j"
proof
  assume "event_key i = event_key j"
  then have "length (replicate (Suc i) (CHR ''e'')) = length (replicate (Suc j) (CHR ''e''))"
    by (simp add: event_key_def)
  then show "i = j" by simp
qed simp

lemma keys_same_second: "map fst (same_second n) = map event_key [0..<n]"
  by (simp add: same_second_def comp_def)

lemma distinct_event_keys: "distinct (map event_key [0..<n])"
  by (simp add: distinct_map inj_on_def event_key_eq)

lemma select_recent_same_second:
  "select_recent n (same_second (Suc n)) = map event_key [0..<n]"
proof -
  have "order_by_processed_at_desc (same_second (Suc n)) = same_second (Suc n)"
    by (rule order_same_second [of _ 0]) (auto simp: same_second_def)
  moreover have "take n (map event_key [0..<Suc n]) = map event_key [0..<n]"
    by (simp add: take_map)
  ultimately show ?thesis
    by (simp add: select_recent_def take_map [symmetric] keys_same_second del: upt_Suc)
qed

text \<open>
  C5. The docstring of \<^verbatim>\<open>_load_cache\<close> says that it loads the last \<^verbatim>\<open>CACHE_SIZE\<close> entries,
  and \<^verbatim>\<open>ORDER BY processed_at DESC LIMIT\<close> is written to select them; the column has a
  resolution of one second and the query no second sort key. Mark \<^verbatim>\<open>CACHE_SIZE + 1\<close>
  distinct keys in sequence on a new database file within one second of the clock,
  every call running and committing, and construct a new instance on the file: all
  rows carry the same \<^verbatim>\<open>processed_at\<close>, the query returns the first \<^verbatim>\<open>CACHE_SIZE\<close> rows
  in rowid order, and the cache of the new instance holds the key marked first and
  not the key marked last. For the key marked last \<^verbatim>\<open>is_processed\<close> still answers true,
  through the table.
\<close>

theorem warm_up_same_second_keeps_oldest:
  "distinct (map fst (same_second (Suc CACHE_SIZE)))
   \<and> CACHE_SIZE < length (same_second (Suc CACHE_SIZE))
   \<and> last (same_second (Suc CACHE_SIZE)) = (event_key CACHE_SIZE, 0)
   \<and> hd (same_second (Suc CACHE_SIZE)) = (event_key 0, 0)
   \<and> DeduplicationStore Runs Runs Runs Runs
        (durable (run (mark_all (same_second (Suc CACHE_SIZE))) (opened []))) =
      Inr ((opened (same_second (Suc CACHE_SIZE)))
             \<lparr>cache := set (select_recent CACHE_SIZE (same_second (Suc CACHE_SIZE)))\<rparr>)
   \<and> event_key CACHE_SIZE \<notin> set (select_recent CACHE_SIZE (same_second (Suc CACHE_SIZE)))
   \<and> event_key 0 \<in> set (select_recent CACHE_SIZE (same_second (Suc CACHE_SIZE)))
   \<and> fst (is_processed Runs (event_key CACHE_SIZE)
        ((opened (same_second (Suc CACHE_SIZE)))
           \<lparr>cache := set (select_recent CACHE_SIZE (same_second (Suc CACHE_SIZE)))\<rparr>)) =
      Inr True"
proof -
  let ?kts = "same_second (Suc CACHE_SIZE)"
  have d: "distinct (map fst ?kts)"
    by (simp only: keys_same_second distinct_event_keys)
  have l: "CACHE_SIZE < length ?kts"
    by (simp add: same_second_def)
  have la: "last ?kts = (event_key CACHE_SIZE, 0)"
    by (simp add: same_second_def)
  have h: "hd ?kts = (event_key 0, 0)"
    by (simp add: same_second_def upt_conv_Cons del: upt_Suc)
  have n: "DeduplicationStore Runs Runs Runs Runs (durable (run (mark_all ?kts) (opened []))) =
      Inr ((opened ?kts)\<lparr>cache := set (select_recent CACHE_SIZE ?kts)\<rparr>)"
    by (simp only: durable_mark_all_new [OF d] construct_runs)
  have out: "event_key CACHE_SIZE \<notin> set (select_recent CACHE_SIZE ?kts)"
    by (simp only: select_recent_same_second) (simp add: event_key_eq image_iff)
  have inn: "event_key 0 \<in> set (select_recent CACHE_SIZE ?kts)"
    using CACHE_SIZE_pos by (simp only: select_recent_same_second) auto
  have "event_key CACHE_SIZE \<in> set (map fst ?kts)"
    by (simp only: keys_same_second) simp
  with out have fb: "fst (is_processed Runs (event_key CACHE_SIZE)
      ((opened ?kts)\<lparr>cache := set (select_recent CACHE_SIZE ?kts)\<rparr>)) = Inr True"
    by (simp add: is_processed_def attempt_def select_one_def opened_def)
  from d l la h n out inn fb show ?thesis by blast
qed

end
